theory Spec2Isabelle
  imports Main
begin

section \<open>Key analysis: range classification, grouping and group lookup\<close>

text \<open>
  A shallow embedding of \<^verbatim>\<open>key_analysis.py\<close>. Python integers are unbounded, so keys,
  gap tolerances, page sizes and returned indices are of type \<open>int\<close>; Python lists are
  HOL lists. An exception raised by the source is a value \<open>Inl e\<close> of the result type.
\<close>

subsection \<open>Errors\<close>

text \<open>
  The source defines no exception of its own. The two built-in exceptions it can raise are
  \<^verbatim>\<open>IndexError\<close> (from \<^verbatim>\<open>nums[0]\<close>, \<^verbatim>\<open>groups[-1]\<close>, \<^verbatim>\<open>g[0]\<close>) and
  \<^verbatim>\<open>AssertionError\<close> (from the \<^verbatim>\<open>assert\<close> statement in \<^verbatim>\<open>main\<close>).
\<close>

datatype py_error = IndexError | AssertionError

subsection \<open>Constants\<close>

definition PAGE :: int where
  "PAGE = 1024"

definition CUTOFF :: int where
  "CUTOFF = 0x10000"

definition MAX_GAP :: int where
  "MAX_GAP = 4"

subsection \<open>The group locator \<^verbatim>\<open>find_group_index\<close>\<close>

text \<open>
  \<^verbatim>\<open>bisect.bisect_left(a, x)\<close> is the binary search of Python's standard library:
  \<^verbatim>\<open>
      lo, hi = 0, len(a)
      while lo < hi:
          mid = (lo + hi) // 2
          if a[mid] < x: lo = mid + 1
          else: hi = mid
      return lo
  \<close>
  It is modelled as that loop, so that its result is defined on lists that are not sorted
  too. In the loop \<open>mid < hi \<le> len(a)\<close>, so \<^verbatim>\<open>a[mid]\<close> is always in range.
\<close>

function bisect_left_loop :: "int list \<Rightarrow> int \<Rightarrow> nat \<Rightarrow> nat \<Rightarrow> nat" where
  "bisect_left_loop a x lo hi =
     (if lo < hi then
        (let mid = (lo + hi) div 2 in
         if a ! mid < x then bisect_left_loop a x (mid + 1) hi
         else bisect_left_loop a x lo mid)
      else lo)"
  by pat_completeness auto
termination
  by (relation "measure (\<lambda>(a, x, lo, hi). hi - lo)") auto

definition bisect_left :: "int list \<Rightarrow> int \<Rightarrow> nat" where
  "bisect_left a x = bisect_left_loop a x 0 (length a)"

text \<open>
  The comprehension \<^verbatim>\<open>[g[0] for g in groups]\<close> raises \<^verbatim>\<open>IndexError\<close> at the first
  empty group.
\<close>

fun group_starts :: "int list list \<Rightarrow> py_error + int list" where
  "group_starts [] = Inr []"
| "group_starts (g # gs) =
     (case g of
        [] \<Rightarrow> Inl IndexError
      | s # _ \<Rightarrow> (case group_starts gs of Inl e \<Rightarrow> Inl e | Inr ss \<Rightarrow> Inr (s # ss)))"

text \<open>
  \<^verbatim>\<open>
  def find_group_index(groups, x, PAGE):
      if not groups:
          return -1
      starts = [g[0] for g in groups]
      pos = bisect.bisect_left(starts, x)
      candidates = []
      if pos < len(groups):
          if abs(groups[pos][0] - x) < PAGE:
              candidates.append(pos)
      if pos > 0:
          if abs(groups[pos-1][0] - x) < PAGE:
              candidates.append(pos-1)
      return min(candidates) if candidates else -1
  \<close>
  The parameter \<^verbatim>\<open>PAGE\<close> shadows the global of that name; it is called \<open>page\<close> here.
  Once \<open>starts\<close> has been built every group is known to be non-empty, so
  \<^verbatim>\<open>groups[pos][0]\<close> is the head of the group at an index that the guards keep in range.
\<close>

definition find_group_index :: "int list list \<Rightarrow> int \<Rightarrow> int \<Rightarrow> py_error + int" where
  "find_group_index groups x page =
     (if groups = [] then Inr (- 1)
      else case group_starts groups of
        Inl e \<Rightarrow> Inl e
      | Inr starts \<Rightarrow>
          (let pos = bisect_left starts x;
               candidates = [];
               candidates =
                 (if pos < length groups \<and> \<bar>hd (groups ! pos) - x\<bar> < page
                  then candidates @ [int pos] else candidates);
               candidates =
                 (if pos > 0 \<and> \<bar>hd (groups ! (pos - 1)) - x\<bar> < page
                  then candidates @ [int pos - 1] else candidates)
           in Inr (if candidates \<noteq> [] then min_list candidates else - 1)))"

text \<open>
  The distances between the starts of adjacent groups, in order. This list is not computed
  by the source; it states the precondition of the locator's consistency property.
\<close>

definition start_distances :: "int list list \<Rightarrow> int list" where
  "start_distances groups =
     map (\<lambda>(a, b). b - a) (zip (map hd groups) (tl (map hd groups)))"

subsection \<open>The range classifier in \<^verbatim>\<open>main\<close>\<close>

text \<open>
  \<^verbatim>\<open>
      low = []
      high = []
      for x in nums:
          if x < CUTOFF:
              low.append(x)
          else:
              assert x % 4 == 0
              high.append(CUTOFF + (x - CUTOFF) // 4)
  \<close>
  Python's \<^verbatim>\<open>%\<close> and \<^verbatim>\<open>//\<close> with the positive divisor 4 are \<open>mod\<close> and \<open>div\<close> on
  \<open>int\<close> (both round towards minus infinity). A failing \<^verbatim>\<open>assert\<close> raises
  \<^verbatim>\<open>AssertionError\<close> and ends the loop.
\<close>

fun main_classify_loop ::
  "int list \<Rightarrow> int list \<Rightarrow> int list \<Rightarrow> py_error + (int list \<times> int list)" where
  "main_classify_loop low high [] = Inr (low, high)"
| "main_classify_loop low high (x # xs) =
     (if x < CUTOFF then main_classify_loop (low @ [x]) high xs
      else if x mod 4 = 0
        then main_classify_loop low (high @ [CUTOFF + (x - CUTOFF) div 4]) xs
        else Inl AssertionError)"

definition main_classify :: "int list \<Rightarrow> py_error + (int list \<times> int list)" where
  "main_classify nums = main_classify_loop [] [] nums"

subsection \<open>The group builder \<^verbatim>\<open>get_groups\<close>\<close>

text \<open>
  \<^verbatim>\<open>
  def get_groups(nums, gap):
      groups = [[nums[0]]]
      for x in nums[1:]:
          last_group = groups[-1]
          if x - last_group[-1] > gap:
              groups.append([x])
          else:
              last_group.append(x)
      return groups
  \<close>
  The loop threads the list \<open>groups\<close>. \<^verbatim>\<open>last_group\<close> aliases the last element of
  \<open>groups\<close>, so appending to it replaces that last element. Both \<^verbatim>\<open>groups[-1]\<close> and
  \<^verbatim>\<open>last_group[-1]\<close> raise \<^verbatim>\<open>IndexError\<close> on an empty list, which the model keeps as
  branches.
\<close>

fun get_groups_loop :: "int list list \<Rightarrow> int list \<Rightarrow> int \<Rightarrow> py_error + int list list" where
  "get_groups_loop groups [] gap = Inr groups"
| "get_groups_loop groups (x # xs) gap =
     (if groups = [] then Inl IndexError
      else let last_group = last groups in
        if last_group = [] then Inl IndexError
        else if x - last last_group > gap
          then get_groups_loop (groups @ [[x]]) xs gap
          else get_groups_loop (butlast groups @ [last_group @ [x]]) xs gap)"

definition get_groups :: "int list \<Rightarrow> int \<Rightarrow> py_error + int list list" where
  "get_groups nums gap =
     (case nums of
        [] \<Rightarrow> Inl IndexError
      | n0 # rest \<Rightarrow> get_groups_loop [[n0]] rest gap)"

text \<open>The state of the loop is well formed when there is a group and no group is empty.\<close>

definition wf_groups :: "int list list \<Rightarrow> bool" where
  "wf_groups groups \<longleftrightarrow> groups \<noteq> [] \<and> [] \<notin> set groups"

section \<open>Properties of the group builder\<close>

lemma wf_groups_last: "wf_groups groups \<Longrightarrow> last groups \<noteq> []"
  unfolding wf_groups_def by (metis last_in_set)

lemma wf_groups_open: "wf_groups groups \<Longrightarrow> wf_groups (groups @ [[x]])"
  unfolding wf_groups_def by simp

lemma wf_groups_extend: "wf_groups groups \<Longrightarrow> wf_groups (butlast groups @ [last groups @ [x]])"
  unfolding wf_groups_def by (auto dest: in_set_butlastD)

lemma get_groups_loop_step:
  assumes "wf_groups groups"
  shows "get_groups_loop groups (x # xs) gap =
     (if x - last (last groups) > gap
      then get_groups_loop (groups @ [[x]]) xs gap
      else get_groups_loop (butlast groups @ [last groups @ [x]]) xs gap)"
proof -
  from assms have "groups \<noteq> []" by (simp add: wf_groups_def)
  moreover from assms have "last groups \<noteq> []" by (rule wf_groups_last)
  ultimately show ?thesis by (simp add: Let_def)
qed

lemma get_groups_loop_total:
  "wf_groups groups \<Longrightarrow> \<exists>gs. get_groups_loop groups xs gap = Inr gs"
proof (induction xs arbitrary: groups)
  case Nil
  show ?case by simp
next
  case (Cons x xs)
  from Cons.prems have a: "wf_groups (groups @ [[x]])" by (rule wf_groups_open)
  from Cons.prems have b: "wf_groups (butlast groups @ [last groups @ [x]])"
    by (rule wf_groups_extend)
  show ?case
    using Cons.IH [OF a] Cons.IH [OF b] get_groups_loop_step [OF Cons.prems]
    by (cases "x - last (last groups) > gap") simp_all
qed

lemma get_groups_loop_concat:
  "wf_groups groups \<Longrightarrow> get_groups_loop groups xs gap = Inr gs \<Longrightarrow>
   concat gs = concat groups @ xs \<and> wf_groups gs"
proof (induction xs arbitrary: groups)
  case Nil
  then show ?case by simp
next
  case (Cons x xs)
  have wf: "wf_groups groups" by fact
  then have ne: "groups \<noteq> []" by (simp add: wf_groups_def)
  show ?case
  proof (cases "x - last (last groups) > gap")
    case True
    with Cons.prems(2) have run: "get_groups_loop (groups @ [[x]]) xs gap = Inr gs"
      unfolding get_groups_loop_step [OF wf] by simp
    from Cons.IH [OF wf_groups_open [OF wf] run] show ?thesis by simp
  next
    case False
    with Cons.prems(2)
    have run: "get_groups_loop (butlast groups @ [last groups @ [x]]) xs gap = Inr gs"
      unfolding get_groups_loop_step [OF wf] by simp
    have "concat (butlast groups @ [last groups @ [x]]) = concat (butlast groups @ [last groups]) @ [x]"
      by simp
    also have "\<dots> = concat groups @ [x]"
      using ne by simp
    finally have "concat (butlast groups @ [last groups @ [x]]) = concat groups @ [x]" .
    with Cons.IH [OF wf_groups_extend [OF wf] run] show ?thesis by simp
  qed
qed

lemma wf_groups_seed: "wf_groups [[n0]]"
  by (simp add: wf_groups_def)

lemma get_groups_total:
  "S \<noteq> [] \<Longrightarrow> \<exists>gs. get_groups S gap = Inr gs"
  by (cases S) (simp_all add: get_groups_def get_groups_loop_total [OF wf_groups_seed])

text \<open>
  Claim C1. For every non-empty input sequence \<open>S\<close> and every gap tolerance \<open>g\<close>,
  \<^verbatim>\<open>get_groups\<close> returns a list of groups whose concatenation, in order, is exactly \<open>S\<close>;
  moreover no returned group is empty.
\<close>

theorem get_groups_partition:
  assumes "S \<noteq> []"
  shows "\<exists>gs. get_groups S g = Inr gs \<and> concat gs = S \<and> [] \<notin> set gs"
proof -
  from assms obtain n0 rest where S: "S = n0 # rest" by (cases S) auto
  from get_groups_loop_total [OF wf_groups_seed]
  obtain gs where run: "get_groups_loop [[n0]] rest g = Inr gs" by blast
  from get_groups_loop_concat [OF wf_groups_seed run]
  have "concat gs = S" and "wf_groups gs" by (simp_all add: S)
  with run show ?thesis by (simp add: S get_groups_def wf_groups_def)
qed

theorem get_groups_partition_witness:
  "[1, 2, 3, 10, 11, 50] \<noteq> ([] :: int list) \<and>
   get_groups [1, 2, 3, 10, 11, 50] 1 = Inr [[1, 2, 3], [10, 11], [50]] \<and>
   concat [[1, 2, 3], [10, 11], [50]] = [1, 2, 3, 10, 11, 50 :: int]"
  using get_groups_partition [of "[1, 2, 3, 10, 11, 50]" 1]
  by (simp add: get_groups_def)

lemma successively_zip_tl:
  "successively P xs \<longleftrightarrow> (\<forall>(a, b)\<in>set (zip xs (tl xs)). P a b)"
  by (induction P xs rule: successively.induct) auto

lemma get_groups_loop_cohesion:
  "wf_groups groups \<Longrightarrow> get_groups_loop groups xs gap = Inr gs \<Longrightarrow>
   \<forall>grp\<in>set groups. successively (\<lambda>a b. b - a \<le> gap) grp \<Longrightarrow>
   \<forall>grp\<in>set gs. successively (\<lambda>a b. b - a \<le> gap) grp"
proof (induction xs arbitrary: groups)
  case Nil
  then show ?case by simp
next
  case (Cons x xs)
  have wf: "wf_groups groups" by fact
  have coh: "\<forall>grp\<in>set groups. successively (\<lambda>a b. b - a \<le> gap) grp" by fact
  from wf have ne: "groups \<noteq> []" by (simp add: wf_groups_def)
  show ?case
  proof (cases "x - last (last groups) > gap")
    case True
    with Cons.prems(2) have run: "get_groups_loop (groups @ [[x]]) xs gap = Inr gs"
      unfolding get_groups_loop_step [OF wf] by simp
    from coh have "\<forall>grp\<in>set (groups @ [[x]]). successively (\<lambda>a b. b - a \<le> gap) grp"
      by simp
    from Cons.IH [OF wf_groups_open [OF wf] run this] show ?thesis .
  next
    case False
    with Cons.prems(2)
    have run: "get_groups_loop (butlast groups @ [last groups @ [x]]) xs gap = Inr gs"
      unfolding get_groups_loop_step [OF wf] by simp
    from coh ne have "successively (\<lambda>a b. b - a \<le> gap) (last groups)"
      by simp
    with False have "successively (\<lambda>a b. b - a \<le> gap) (last groups @ [x])"
      by (simp add: successively_append_iff)
    with coh have "\<forall>grp\<in>set (butlast groups @ [last groups @ [x]]).
        successively (\<lambda>a b. b - a \<le> gap) grp"
      by (auto dest: in_set_butlastD)
    from Cons.IH [OF wf_groups_extend [OF wf] run this] show ?thesis .
  qed
qed

lemma get_groups_loop_boundary:
  "wf_groups groups \<Longrightarrow> get_groups_loop groups xs gap = Inr gs \<Longrightarrow>
   successively (\<lambda>A B. hd B - last A > gap) groups \<Longrightarrow>
   successively (\<lambda>A B. hd B - last A > gap) gs"
proof (induction xs arbitrary: groups)
  case Nil
  then show ?case by simp
next
  case (Cons x xs)
  have wf: "wf_groups groups" by fact
  have bnd: "successively (\<lambda>A B. hd B - last A > gap) groups" by fact
  from wf have ne: "groups \<noteq> []" by (simp add: wf_groups_def)
  from wf have lne: "last groups \<noteq> []" by (rule wf_groups_last)
  show ?case
  proof (cases "x - last (last groups) > gap")
    case True
    with Cons.prems(2) have run: "get_groups_loop (groups @ [[x]]) xs gap = Inr gs"
      unfolding get_groups_loop_step [OF wf] by simp
    from bnd True have "successively (\<lambda>A B. hd B - last A > gap) (groups @ [[x]])"
      by (simp add: successively_append_iff)
    from Cons.IH [OF wf_groups_open [OF wf] run this] show ?thesis .
  next
    case False
    with Cons.prems(2)
    have run: "get_groups_loop (butlast groups @ [last groups @ [x]]) xs gap = Inr gs"
      unfolding get_groups_loop_step [OF wf] by simp
    from bnd ne have "successively (\<lambda>A B. hd B - last A > gap) (butlast groups @ [last groups])"
      by simp
    with lne have "successively (\<lambda>A B. hd B - last A > gap) (butlast groups @ [last groups @ [x]])"
      by (simp add: successively_append_iff)
    from Cons.IH [OF wf_groups_extend [OF wf] run this] show ?thesis .
  qed
qed

lemma get_groups_loop_length:
  "wf_groups groups \<Longrightarrow> get_groups_loop groups xs gap = Inr gs \<Longrightarrow>
   length gs = length groups +
     length (filter (\<lambda>(a, b). b - a > gap) (zip (last (last groups) # xs) xs))"
proof (induction xs arbitrary: groups)
  case Nil
  then show ?case by simp
next
  case (Cons x xs)
  have wf: "wf_groups groups" by fact
  from wf have ne: "groups \<noteq> []" by (simp add: wf_groups_def)
  show ?case
  proof (cases "x - last (last groups) > gap")
    case True
    with Cons.prems(2) have run: "get_groups_loop (groups @ [[x]]) xs gap = Inr gs"
      unfolding get_groups_loop_step [OF wf] by simp
    from Cons.IH [OF wf_groups_open [OF wf] run] True show ?thesis by simp
  next
    case False
    with Cons.prems(2)
    have run: "get_groups_loop (butlast groups @ [last groups @ [x]]) xs gap = Inr gs"
      unfolding get_groups_loop_step [OF wf] by simp
    from Cons.IH [OF wf_groups_extend [OF wf] run] False ne show ?thesis by simp
  qed
qed

lemma length_filter_mono:
  "(\<And>z. z \<in> set zs \<Longrightarrow> P z \<Longrightarrow> Q z) \<Longrightarrow> length (filter P zs) \<le> length (filter Q zs)"
  by (induction zs) auto

text \<open>
  Claim C2. For every non-empty ascending input and every gap tolerance \<open>g\<close>, in every
  group that \<^verbatim>\<open>get_groups\<close> returns, every pair \<open>(x, y)\<close> of consecutive elements
  satisfies \<open>y - x \<le> g\<close>. The consecutive pairs of a group are \<^verbatim>\<open>zip(g, g[1:])\<close>, as in
  the report loop of \<^verbatim>\<open>main\<close>.
\<close>

theorem get_groups_cohesion:
  assumes "S \<noteq> []" and "sorted S"
  shows "\<exists>gs. get_groups S g = Inr gs \<and>
    (\<forall>grp\<in>set gs. \<forall>(x, y)\<in>set (zip grp (tl grp)). y - x \<le> g)"
proof -
  from assms(1) obtain n0 rest where S: "S = n0 # rest" by (cases S) auto
  from get_groups_loop_total [OF wf_groups_seed]
  obtain gs where run: "get_groups_loop [[n0]] rest g = Inr gs" by blast
  have "\<forall>grp\<in>set [[n0]]. successively (\<lambda>a b. b - a \<le> g) grp" by simp
  from get_groups_loop_cohesion [OF wf_groups_seed run this]
  have "\<forall>grp\<in>set gs. \<forall>(x, y)\<in>set (zip grp (tl grp)). y - x \<le> g"
    by (simp add: successively_zip_tl)
  with run show ?thesis by (simp add: S get_groups_def)
qed

theorem get_groups_cohesion_witness:
  "[1, 2, 3, 10, 11, 50] \<noteq> ([] :: int list) \<and> sorted [1, 2, 3, 10, 11, 50 :: int] \<and>
   get_groups [1, 2, 3, 10, 11, 50] 10 = Inr [[1, 2, 3, 10, 11], [50]] \<and>
   list_all (\<lambda>grp. list_all (\<lambda>(x, y). y - x \<le> 10) (zip grp (tl grp)))
     [[1, 2, 3, 10, 11], [50 :: int]]"
  using get_groups_cohesion [of "[1, 2, 3, 10, 11, 50]" 10]
  by (simp add: get_groups_def)

text \<open>
  Claim C3. For every non-empty ascending input and every gap tolerance \<open>g\<close>, for every
  pair of adjacent groups \<open>A\<close>, \<open>B\<close> in the output of \<^verbatim>\<open>get_groups\<close>, the first element
  of \<open>B\<close> minus the last element of \<open>A\<close> is strictly greater than \<open>g\<close>. No group is
  empty, so the first and the last element exist.
\<close>

theorem get_groups_boundary:
  assumes "S \<noteq> []" and "sorted S"
  shows "\<exists>gs. get_groups S g = Inr gs \<and> [] \<notin> set gs \<and>
    (\<forall>(A, B)\<in>set (zip gs (tl gs)). hd B - last A > g)"
proof -
  from assms(1) obtain n0 rest where S: "S = n0 # rest" by (cases S) auto
  from get_groups_loop_total [OF wf_groups_seed]
  obtain gs where run: "get_groups_loop [[n0]] rest g = Inr gs" by blast
  from get_groups_loop_concat [OF wf_groups_seed run]
  have ne: "[] \<notin> set gs" by (simp add: wf_groups_def)
  have "successively (\<lambda>A B. hd B - last A > g) [[n0]]" by simp
  from get_groups_loop_boundary [OF wf_groups_seed run this]
  have "\<forall>(A, B)\<in>set (zip gs (tl gs)). hd B - last A > g"
    by (simp add: successively_zip_tl)
  with run ne show ?thesis by (simp add: S get_groups_def)
qed

theorem get_groups_boundary_witness:
  "[3, 4, 9, 10, 40] \<noteq> ([] :: int list) \<and> sorted [3, 4, 9, 10, 40 :: int] \<and>
   get_groups [3, 4, 9, 10, 40] 2 = Inr [[3, 4], [9, 10], [40]] \<and>
   list_all (\<lambda>(A, B). hd B - last A > 2)
     (zip [[3, 4], [9, 10], [40 :: int]] (tl [[3, 4], [9, 10], [40]]))"
  using get_groups_boundary [of "[3, 4, 9, 10, 40]" 2]
  by (simp add: get_groups_def)

text \<open>
  Claim C4. For every non-empty ascending input and every two gap tolerances
  \<open>g1 < g2\<close>, \<^verbatim>\<open>get_groups\<close> returns with \<open>g2\<close> at most as many groups as with \<open>g1\<close>.
\<close>

theorem get_groups_tolerance_monotone:
  assumes "S \<noteq> []" and "sorted S" and "g1 < g2"
  shows "\<exists>gs1 gs2. get_groups S g1 = Inr gs1 \<and> get_groups S g2 = Inr gs2 \<and>
    length gs2 \<le> length gs1"
proof -
  from assms(1) obtain n0 rest where S: "S = n0 # rest" by (cases S) auto
  from get_groups_loop_total [OF wf_groups_seed]
  obtain gs1 where run1: "get_groups_loop [[n0]] rest g1 = Inr gs1" by blast
  from get_groups_loop_total [OF wf_groups_seed]
  obtain gs2 where run2: "get_groups_loop [[n0]] rest g2 = Inr gs2" by blast
  let ?zs = "zip (n0 # rest) rest"
  have len1: "length gs1 = 1 + length (filter (\<lambda>(a, b). b - a > g1) ?zs)"
    using get_groups_loop_length [OF wf_groups_seed run1] by simp
  have len2: "length gs2 = 1 + length (filter (\<lambda>(a, b). b - a > g2) ?zs)"
    using get_groups_loop_length [OF wf_groups_seed run2] by simp
  have "length (filter (\<lambda>(a, b). b - a > g2) ?zs) \<le> length (filter (\<lambda>(a, b). b - a > g1) ?zs)"
    using assms(3) by (intro length_filter_mono) auto
  with len1 len2 have "length gs2 \<le> length gs1" by simp
  with run1 run2 show ?thesis by (simp add: S get_groups_def)
qed

theorem get_groups_tolerance_monotone_witness:
  "[1, 2, 3, 10, 11, 50] \<noteq> ([] :: int list) \<and> sorted [1, 2, 3, 10, 11, 50 :: int] \<and>
   (1 :: int) < 7 \<and>
   get_groups [1, 2, 3, 10, 11, 50] 1 = Inr [[1, 2, 3], [10, 11], [50]] \<and>
   get_groups [1, 2, 3, 10, 11, 50] 7 = Inr [[1, 2, 3, 10, 11], [50]] \<and>
   length [[1, 2, 3, 10, 11], [50 :: int]] \<le> length [[1, 2, 3], [10, 11], [50 :: int]]"
  using get_groups_tolerance_monotone [of "[1, 2, 3, 10, 11, 50]" 1 7]
  by (simp add: get_groups_def)

section \<open>Properties of the range classifier\<close>

lemma main_classify_loop_ok:
  "\<forall>x\<in>set nums. CUTOFF \<le> x \<longrightarrow> x mod 4 = 0 \<Longrightarrow>
   main_classify_loop low high nums =
     Inr (low @ filter (\<lambda>x. x < CUTOFF) nums,
          high @ map (\<lambda>x. CUTOFF + (x - CUTOFF) div 4) (filter (\<lambda>x. CUTOFF \<le> x) nums))"
  by (induction nums arbitrary: low high) auto

lemma main_classify_loop_fail:
  "\<exists>x\<in>set nums. CUTOFF \<le> x \<and> x mod 4 \<noteq> 0 \<Longrightarrow>
   main_classify_loop low high nums = Inl AssertionError"
  by (induction nums arbitrary: low high) auto

lemma high_key_exact:
  "CUTOFF \<le> x \<Longrightarrow> x mod 4 = 0 \<Longrightarrow> 4 * ((x - CUTOFF) div 4) = x - CUTOFF"
  unfolding CUTOFF_def by presburger

text \<open>
  Claim C5. For every input of non-negative integers in which every value \<open>\<ge> CUTOFF\<close>
  is divisible by 4, the range classifier returns two sequences, each in the order of the
  input: \<open>low\<close> holds exactly the values \<open>< CUTOFF\<close>, unchanged, and \<open>high\<close> holds
  exactly the values \<open>\<ge> CUTOFF\<close>, each as \<open>CUTOFF + (value - CUTOFF) div 4\<close>, where the
  division is exact. The witness is the spec's own example
  \<open>[100, 0x10000, 0x10008]\<close>.
\<close>

theorem main_classify_partition:
  assumes "\<forall>x\<in>set nums. 0 \<le> x"
    and "\<forall>x\<in>set nums. CUTOFF \<le> x \<longrightarrow> x mod 4 = 0"
  shows "main_classify nums =
      Inr (filter (\<lambda>x. x < CUTOFF) nums,
           map (\<lambda>x. CUTOFF + (x - CUTOFF) div 4) (filter (\<lambda>x. CUTOFF \<le> x) nums)) \<and>
    (\<forall>x\<in>set nums. CUTOFF \<le> x \<longrightarrow> 4 * ((x - CUTOFF) div 4) = x - CUTOFF)"
proof
  show "main_classify nums =
      Inr (filter (\<lambda>x. x < CUTOFF) nums,
           map (\<lambda>x. CUTOFF + (x - CUTOFF) div 4) (filter (\<lambda>x. CUTOFF \<le> x) nums))"
    unfolding main_classify_def using main_classify_loop_ok [OF assms(2), of "[]" "[]"] by simp
  show "\<forall>x\<in>set nums. CUTOFF \<le> x \<longrightarrow> 4 * ((x - CUTOFF) div 4) = x - CUTOFF"
    using assms(2) high_key_exact by blast
qed

theorem main_classify_partition_witness:
  "list_all (\<lambda>x. 0 \<le> x) [100, 0x10000, 0x10008 :: int] \<and>
   list_all (\<lambda>x. x < CUTOFF \<or> x mod 4 = 0) [100, 0x10000, 0x10008] \<and>
   main_classify [100, 0x10000, 0x10008] = Inr ([100], [0x10000, 0x10002])"
  using main_classify_partition [of "[100, 0x10000, 0x10008]"]
  by (simp add: CUTOFF_def)

text \<open>
  Claim C6 says that a value \<open>\<ge> CUTOFF\<close> that is not divisible by 4 makes the classifier
  fail with a named \<open>InvalidHighKey\<close> error and not with a bare assertion fault. The source
  has no such exception: the check is an \<^verbatim>\<open>assert\<close> statement, and on the input
  \<open>[0x10001]\<close> the failure is exactly \<^verbatim>\<open>AssertionError\<close>.
\<close>

theorem main_classify_not_named_error:
  "main_classify [0x10001] = Inl AssertionError"
  by (simp add: main_classify_def CUTOFF_def)

text \<open>
  Claim C6, amended. For every input containing a value \<open>\<ge> CUTOFF\<close> that is not
  divisible by 4, the classifier fails with \<^verbatim>\<open>AssertionError\<close> and returns neither
  \<open>low\<close> nor \<open>high\<close>; for every input whose values \<open>\<ge> CUTOFF\<close> are all divisible by 4
  it raises nothing and returns both sequences.
\<close>

theorem main_classify_assertion:
  "((\<exists>x\<in>set nums. CUTOFF \<le> x \<and> x mod 4 \<noteq> 0) \<longrightarrow>
      main_classify nums = Inl AssertionError) \<and>
   ((\<forall>x\<in>set nums. CUTOFF \<le> x \<longrightarrow> x mod 4 = 0) \<longrightarrow>
      (\<exists>low high. main_classify nums = Inr (low, high)))"
  unfolding main_classify_def
  using main_classify_loop_fail [of nums "[]" "[]"] main_classify_loop_ok [of nums "[]" "[]"]
  by blast

theorem main_classify_assertion_witness:
  "(\<exists>x\<in>set [100, 0x10004, 0x10006 :: int]. CUTOFF \<le> x \<and> x mod 4 \<noteq> 0) \<and>
   main_classify [100, 0x10004, 0x10006] = Inl AssertionError \<and>
   list_all (\<lambda>x. x < CUTOFF \<or> x mod 4 = 0) [7, 0x10004] \<and>
   main_classify [7, 0x10004] = Inr ([7], [0x10001])"
  using main_classify_assertion [of "[100, 0x10004, 0x10006]"]
    main_classify_assertion [of "[7, 0x10004]"]
  by (simp add: main_classify_def CUTOFF_def)

section \<open>The group builder on the empty input\<close>

text \<open>
  Claim C7 says that on an empty input \<^verbatim>\<open>get_groups\<close> fails with a named
  \<open>EmptyInput\<close> error or returns an empty list of groups, and does not propagate a raw
  index fault. The source evaluates \<^verbatim>\<open>nums[0]\<close> first, so what it raises on the empty
  input is the index fault itself.
\<close>

theorem get_groups_empty_index_fault:
  "get_groups [] 1 = Inl IndexError"
  by (simp add: get_groups_def)

text \<open>
  Claim C7, amended. On the empty input, for every gap tolerance, \<^verbatim>\<open>get_groups\<close>
  raises \<^verbatim>\<open>IndexError\<close> and returns no list of groups.
\<close>

theorem get_groups_empty:
  "get_groups [] g = Inl IndexError"
  by (simp add: get_groups_def)

theorem get_groups_empty_witness:
  "get_groups [] 64 = Inl IndexError"
  using get_groups_empty [of 64] by simp

section \<open>Properties of the group locator\<close>

text \<open>The defining equation of the binary search is unfolded by hand.\<close>

declare bisect_left_loop.simps [simp del]

lemma group_starts_ok: "[] \<notin> set groups \<Longrightarrow> group_starts groups = Inr (map hd groups)"
  by (induction groups) (auto split: list.splits)

lemma bisect_left_loop_bounds:
  "lo \<le> hi \<Longrightarrow> lo \<le> bisect_left_loop a x lo hi \<and> bisect_left_loop a x lo hi \<le> hi"
proof (induction a x lo hi rule: bisect_left_loop.induct)
  case (1 a x lo hi)
  show ?case
  proof (cases "lo < hi")
    case False
    then have "bisect_left_loop a x lo hi = lo"
      by (subst bisect_left_loop.simps) simp
    with False "1.prems" show ?thesis by simp
  next
    case True
    define mid where "mid = (lo + hi) div 2"
    from True have m: "lo \<le> mid" "mid < hi" by (simp_all add: mid_def)
    show ?thesis
    proof (cases "a ! mid < x")
      case up: True
      from "1.IH"(1) [OF True mid_def up] m
      have "mid + 1 \<le> bisect_left_loop a x (mid + 1) hi \<and> bisect_left_loop a x (mid + 1) hi \<le> hi"
        by simp
      moreover have "bisect_left_loop a x lo hi = bisect_left_loop a x (mid + 1) hi"
        using True up by (simp add: bisect_left_loop.simps [of a x lo hi] mid_def)
      ultimately show ?thesis using m by simp
    next
      case down: False
      from "1.IH"(2) [OF True mid_def down] m
      have "lo \<le> bisect_left_loop a x lo mid \<and> bisect_left_loop a x lo mid \<le> mid"
        by simp
      moreover have "bisect_left_loop a x lo hi = bisect_left_loop a x lo mid"
        using True down by (simp add: bisect_left_loop.simps [of a x lo hi] mid_def)
      ultimately show ?thesis using m by simp
    qed
  qed
qed

lemma bisect_left_loop_sorted:
  "sorted a \<Longrightarrow> lo \<le> hi \<Longrightarrow> hi \<le> length a \<Longrightarrow>
   \<forall>i<lo. a ! i < x \<Longrightarrow> \<forall>i. hi \<le> i \<and> i < length a \<longrightarrow> x \<le> a ! i \<Longrightarrow>
   (\<forall>i<bisect_left_loop a x lo hi. a ! i < x) \<and>
   (\<forall>i. bisect_left_loop a x lo hi \<le> i \<and> i < length a \<longrightarrow> x \<le> a ! i)"
proof (induction a x lo hi rule: bisect_left_loop.induct)
  case (1 a x lo hi)
  have srt: "sorted a" by fact
  show ?case
  proof (cases "lo < hi")
    case False
    then have "bisect_left_loop a x lo hi = lo"
      by (subst bisect_left_loop.simps) simp
    with False "1.prems" show ?thesis by simp
  next
    case True
    define mid where "mid = (lo + hi) div 2"
    from True have m: "lo \<le> mid" "mid < hi" by (simp_all add: mid_def)
    with "1.prems"(3) have ml: "mid < length a" by simp
    show ?thesis
    proof (cases "a ! mid < x")
      case up: True
      have below: "\<forall>i<mid + 1. a ! i < x"
      proof (intro allI impI)
        fix i assume "i < mid + 1"
        then have "i \<le> mid" by simp
        with srt ml have "a ! i \<le> a ! mid" by (simp add: sorted_nth_mono)
        with up show "a ! i < x" by simp
      qed
      have eq: "bisect_left_loop a x lo hi = bisect_left_loop a x (mid + 1) hi"
        using True up by (simp add: bisect_left_loop.simps [of a x lo hi] mid_def)
      from m have "mid + 1 \<le> hi" by simp
      from "1.IH"(1) [OF True mid_def up srt this "1.prems"(3) below "1.prems"(5)]
      show ?thesis unfolding eq .
    next
      case down: False
      have above: "\<forall>i. mid \<le> i \<and> i < length a \<longrightarrow> x \<le> a ! i"
      proof (intro allI impI)
        fix i assume "mid \<le> i \<and> i < length a"
        with srt have "a ! mid \<le> a ! i" by (simp add: sorted_nth_mono)
        with down show "x \<le> a ! i" by simp
      qed
      have eq: "bisect_left_loop a x lo hi = bisect_left_loop a x lo mid"
        using True down by (simp add: bisect_left_loop.simps [of a x lo hi] mid_def)
      from ml have "mid \<le> length a" by simp
      from "1.IH"(2) [OF True mid_def down srt m(1) this "1.prems"(4) above]
      show ?thesis unfolding eq .
    qed
  qed
qed

lemma bisect_left_le: "bisect_left a x \<le> length a"
  unfolding bisect_left_def using bisect_left_loop_bounds [of 0 "length a" a x] by simp

lemma bisect_left_sorted:
  assumes "sorted a"
  shows "(\<forall>i<bisect_left a x. a ! i < x) \<and>
    (\<forall>i. bisect_left a x \<le> i \<and> i < length a \<longrightarrow> x \<le> a ! i)"
  unfolding bisect_left_def
  using bisect_left_loop_sorted [OF assms, of 0 "length a" x] by simp


text \<open>
  A group list holds non-empty groups. On a list with an empty group the comprehension
  that builds \<open>starts\<close> raises.
\<close>

lemma find_group_index_empty_group: "find_group_index [[]] x page = Inl IndexError"
  by (simp add: find_group_index_def)

lemma find_group_index_eval:
  assumes "groups \<noteq> []" and "[] \<notin> set groups"
  shows "find_group_index groups x page =
    Inr (let pos = bisect_left (map hd groups) x in
         if 0 < pos \<and> \<bar>hd (groups ! (pos - 1)) - x\<bar> < page then int pos - 1
         else if pos < length groups \<and> \<bar>hd (groups ! pos) - x\<bar> < page then int pos
         else - 1)"
  using assms(1) by (simp add: find_group_index_def group_starts_ok [OF assms(2)] Let_def)

lemma start_distances_nth:
  assumes "Suc j < length groups"
  shows "hd (groups ! Suc j) - hd (groups ! j) \<in> set (start_distances groups)"
proof -
  let ?ss = "map hd groups"
  let ?zs = "zip ?ss (tl ?ss)"
  from assms have j: "j < length ?zs" by simp
  then have "?zs ! j = (hd (groups ! j), hd (groups ! Suc j))"
    using assms by (simp add: nth_tl)
  with j have "(map (\<lambda>(a, b). b - a) ?zs) ! j = hd (groups ! Suc j) - hd (groups ! j)"
    by simp
  moreover from j have "(map (\<lambda>(a, b). b - a) ?zs) ! j \<in> set (map (\<lambda>(a, b). b - a) ?zs)"
    by (intro nth_mem) simp
  ultimately show ?thesis by (simp add: start_distances_def)
qed

lemma bisect_left_own_start:
  assumes "sorted_wrt (<) a" and "i < length a"
  shows "bisect_left a (a ! i) = i"
proof -
  from assms(1) have srt: "sorted a"
    by (rule sorted_wrt_mono_rel [rotated]) simp
  let ?p = "bisect_left a (a ! i)"
  note spec = bisect_left_sorted [OF srt, of "a ! i"]
  have "\<not> i < ?p" using spec by auto
  moreover have "\<not> ?p < i"
  proof
    assume lt: "?p < i"
    with assms(2) spec have "a ! i \<le> a ! ?p" by simp
    moreover from assms lt have "a ! ?p < a ! i" by (simp add: sorted_wrt_nth_less)
    ultimately show False by simp
  qed
  ultimately show ?thesis by simp
qed

text \<open>
  Claim C8. For every non-empty list of (non-empty) groups with ascending starts, every
  page size and every query \<open>x\<close>, there is the insertion position \<open>pos\<close> of \<open>x\<close> among
  the starts (every start before \<open>pos\<close> is \<open>< x\<close>, every start from \<open>pos\<close> on is
  \<open>\<ge> x\<close>), and the result of \<^verbatim>\<open>find_group_index\<close> is decided by the groups at
  \<open>pos - 1\<close> (if \<open>pos > 0\<close>) and at \<open>pos\<close> (if in bounds) alone: a candidate qualifies
  iff \<open>\<bar>start - x\<bar> < page\<close>, strictly; the result is \<open>pos - 1\<close> when that candidate
  qualifies (whether or not \<open>pos\<close> does: the smaller index wins), else \<open>pos\<close> when that
  one qualifies, else the sentinel \<open>-1\<close>.
\<close>

theorem find_group_index_candidates:
  assumes "groups \<noteq> []" and "[] \<notin> set groups" and "sorted (map hd groups)"
  shows "\<exists>pos\<le>length groups.
    (\<forall>i<pos. hd (groups ! i) < x) \<and>
    (\<forall>i. pos \<le> i \<and> i < length groups \<longrightarrow> x \<le> hd (groups ! i)) \<and>
    find_group_index groups x page =
      Inr (if 0 < pos \<and> \<bar>hd (groups ! (pos - 1)) - x\<bar> < page then int pos - 1
           else if pos < length groups \<and> \<bar>hd (groups ! pos) - x\<bar> < page then int pos
           else - 1)"
proof -
  let ?pos = "bisect_left (map hd groups) x"
  have le: "?pos \<le> length groups"
    using bisect_left_le [of "map hd groups" x] by simp
  note spec = bisect_left_sorted [OF assms(3), of x]
  have below: "\<forall>i<?pos. hd (groups ! i) < x"
  proof (intro allI impI)
    fix i assume i: "i < ?pos"
    with spec have "map hd groups ! i < x" by blast
    with i le show "hd (groups ! i) < x" by simp
  qed
  have above: "\<forall>i. ?pos \<le> i \<and> i < length groups \<longrightarrow> x \<le> hd (groups ! i)"
  proof (intro allI impI)
    fix i assume i: "?pos \<le> i \<and> i < length groups"
    with spec have "x \<le> map hd groups ! i" by simp
    with i show "x \<le> hd (groups ! i)" by simp
  qed
  have "find_group_index groups x page =
      Inr (if 0 < ?pos \<and> \<bar>hd (groups ! (?pos - 1)) - x\<bar> < page then int ?pos - 1
           else if ?pos < length groups \<and> \<bar>hd (groups ! ?pos) - x\<bar> < page then int ?pos
           else - 1)"
    using find_group_index_eval [OF assms(1,2), of x page] by (simp add: Let_def)
  with le below above show ?thesis by blast
qed

theorem find_group_index_candidates_witness:
  "[[100, 101], [2000], [5000, 5003 :: int]] \<noteq> [] \<and>
   [] \<notin> set [[100, 101], [2000], [5000, 5003 :: int]] \<and>
   sorted (map hd [[100, 101], [2000], [5000, 5003 :: int]]) \<and>
   find_group_index [[100, 101], [2000], [5000, 5003]] 900 PAGE = Inr 0 \<and>
   find_group_index [[100, 101], [2000], [5000, 5003]] 1124 PAGE = Inr 1 \<and>
   find_group_index [[100, 101], [2000], [5000, 5003]] 3024 PAGE = Inr (- 1) \<and>
   find_group_index [[100, 101], [2000], [5000, 5003]] 2001 4000 = Inr 1"
  using find_group_index_candidates [of "[[100, 101], [2000], [5000, 5003]]" 900 PAGE]
    find_group_index_candidates [of "[[100, 101], [2000], [5000, 5003]]" 2001 4000]
    find_group_index_candidates [of "[[100, 101], [2000], [5000, 5003]]" 1124 PAGE]
    find_group_index_candidates [of "[[100, 101], [2000], [5000, 5003]]" 3024 PAGE]
  by (simp add: find_group_index_def bisect_left_def bisect_left_loop.simps PAGE_def)

text \<open>
  Claim C9 says that when the page size exceeds the minimum distance between adjacent
  starts, a query with a group's own start returns that group's index. With starts
  \<open>100, 500, 5000\<close> the minimum distance is \<open>400 < PAGE = 1024\<close>; the query \<open>500\<close>, the
  start of group 1, returns 0, because group 0 qualifies too and the earlier index wins.
\<close>

theorem find_group_index_own_start_earlier:
  "sorted_wrt (<) (map hd [[100, 101], [500], [5000 :: int]]) \<and>
   min_list (start_distances [[100, 101], [500], [5000]]) < PAGE \<and>
   hd ([[100, 101], [500], [5000 :: int]] ! 1) = 500 \<and>
   find_group_index [[100, 101], [500], [5000]] 500 PAGE = Inr 0"
  by (simp add: find_group_index_def bisect_left_def bisect_left_loop.simps PAGE_def
      start_distances_def)

text \<open>
  Claim C9, amended. For every non-empty list of (non-empty) groups with strictly
  ascending starts and every positive page size that does not exceed any distance between
  adjacent starts, a query with the start of group \<open>i\<close> returns \<open>i\<close>.
\<close>

theorem find_group_index_own_start:
  assumes "groups \<noteq> []" and "[] \<notin> set groups" and "sorted_wrt (<) (map hd groups)"
    and "0 < page" and "\<forall>d\<in>set (start_distances groups). page \<le> d"
    and "i < length groups"
  shows "find_group_index groups (hd (groups ! i)) page = Inr (int i)"
proof -
  from assms(6) have x: "hd (groups ! i) = map hd groups ! i" by simp
  from assms(3,6) have pos: "bisect_left (map hd groups) (hd (groups ! i)) = i"
    unfolding x by (intro bisect_left_own_start) simp_all
  have "\<not> (0 < i \<and> \<bar>hd (groups ! (i - 1)) - hd (groups ! i)\<bar> < page)"
  proof
    assume a: "0 < i \<and> \<bar>hd (groups ! (i - 1)) - hd (groups ! i)\<bar> < page"
    then obtain j where j: "i = Suc j" by (cases i) auto
    with assms(6) have "hd (groups ! Suc j) - hd (groups ! j) \<in> set (start_distances groups)"
      by (intro start_distances_nth) simp
    with assms(5) have "page \<le> hd (groups ! Suc j) - hd (groups ! j)" by blast
    with a j show False by simp
  qed
  with assms(4,6) show ?thesis
    unfolding find_group_index_eval [OF assms(1,2)] pos Let_def by simp
qed

theorem find_group_index_own_start_witness:
  "[[100, 101], [2000], [5000 :: int]] \<noteq> [] \<and> [] \<notin> set [[100, 101], [2000], [5000 :: int]] \<and>
   sorted_wrt (<) (map hd [[100, 101], [2000], [5000 :: int]]) \<and> 0 < PAGE \<and>
   list_all (\<lambda>d. PAGE \<le> d) (start_distances [[100, 101], [2000], [5000]]) \<and>
   (1 :: nat) < length [[100, 101], [2000], [5000 :: int]] \<and>
   find_group_index [[100, 101], [2000], [5000]] 2000 PAGE = Inr 1"
  using find_group_index_own_start [of "[[100, 101], [2000], [5000]]" PAGE 1]
  by (simp add: PAGE_def start_distances_def)



end
